theory Spec2Isabelle
  imports Complex_Main "HOL-Library.Multiset" "HOL-Library.Log_Nat"
begin

section \<open>Strings and the string primitives the tools rely on\<close>

text \<open>
  A text is a \<open>string\<close>, a list of characters with code points 0 to 255; \<open>length\<close> is the
  source's \<open>.length\<close> on such texts.
\<close>

definition isWhiteSpace :: "char \<Rightarrow> bool" where
  \<comment> \<open>the class \<open>\s\<close> of a regular expression, which is also what \<open>trim\<close> strips:
     tab, line feed, vertical tab, form feed, carriage return, space, no-break space\<close>
  "isWhiteSpace c \<longleftrightarrow> (of_char c :: nat) \<in> {9, 10, 11, 12, 13, 32, 160}"

definition isLineTerminator :: "char \<Rightarrow> bool" where
  \<comment> \<open>what \<open>.\<close> does not match in a regular expression: line feed and carriage return\<close>
  "isLineTerminator c \<longleftrightarrow> (of_char c :: nat) \<in> {10, 13}"

definition isDigit :: "char \<Rightarrow> bool" where
  \<comment> \<open>the class \<open>\d\<close>\<close>
  "isDigit c \<longleftrightarrow> 48 \<le> (of_char c :: nat) \<and> (of_char c :: nat) \<le> 57"

definition digitVal :: "char \<Rightarrow> int" where
  "digitVal c = int (of_char c) - 48"

definition isTerminator :: "char \<Rightarrow> bool" where
  \<comment> \<open>the class \<open>[.!?]\<close>\<close>
  "isTerminator c \<longleftrightarrow> c = CHR ''.'' \<or> c = CHR ''!'' \<or> c = CHR ''?''"

definition isLowerCase :: "char \<Rightarrow> bool" where
  \<comment> \<open>the class \<open>[a-z]\<close>\<close>
  "isLowerCase c \<longleftrightarrow> 97 \<le> (of_char c :: nat) \<and> (of_char c :: nat) \<le> 122"

definition trim :: "string \<Rightarrow> string" where
  \<comment> \<open>\<open>String.prototype.trim\<close>\<close>
  "trim s = rev (dropWhile isWhiteSpace (rev (dropWhile isWhiteSpace s)))"

fun splitChar :: "char \<Rightarrow> string \<Rightarrow> string \<Rightarrow> string list" where
  \<comment> \<open>\<open>s.split(d)\<close> for a one-character separator \<open>d\<close>; the second argument holds the
     characters of the current piece, latest first\<close>
  "splitChar d acc [] = [rev acc]"
| "splitChar d acc (c # cs) =
     (if c = d then rev acc # splitChar d [] cs else splitChar d (c # acc) cs)"

function splitWhiteSpace :: "string \<Rightarrow> string list" where
  \<comment> \<open>\<open>s.split(/\s+/)\<close>: the pieces between maximal runs of white space, an empty piece
     before a leading run and after a trailing one, and \<open>['''']\<close> for the empty text\<close>
  "splitWhiteSpace s =
     (let w = takeWhile (\<lambda>c. \<not> isWhiteSpace c) s;
          r = dropWhile (\<lambda>c. \<not> isWhiteSpace c) s
      in if r = [] then [w] else w # splitWhiteSpace (dropWhile isWhiteSpace r))"
  by pat_completeness auto
termination
proof (relation "measure length")
  show "wf (measure length)" by simp
next
  fix s w :: string and r :: string
  assume r: "r = dropWhile (\<lambda>c. \<not> isWhiteSpace c) s" and ne: "r \<noteq> []"
  have "isWhiteSpace (hd r)"
    using hd_dropWhile [of "\<lambda>c. \<not> isWhiteSpace c" s] r ne by simp
  then have "length (dropWhile isWhiteSpace r) < length r"
    using ne by (cases r) (simp_all add: le_imp_less_Suc length_dropWhile_le)
  moreover have "length r \<le> length s"
    using r by (simp add: length_dropWhile_le)
  ultimately show "(dropWhile isWhiteSpace r, s) \<in> measure length" by simp
qed

declare splitWhiteSpace.simps [simp del]

definition join :: "string \<Rightarrow> string option list \<Rightarrow> string" where
  \<comment> \<open>\<open>Array.prototype.join\<close>; an \<open>undefined\<close> element (\<open>None\<close>) is joined as the empty text\<close>
  "join sep xs = concat (case map (case_option [] id) xs of [] \<Rightarrow> [] | y # ys \<Rightarrow> y # map ((@) sep) ys)"

section \<open>Numbers\<close>

text \<open>
  A JavaScript \<open>number\<close> is an IEEE 754 double. A finite double is modelled by the rational
  it denotes, and every arithmetic operation of the source by the exact operation followed
  by \<open>nearestDouble\<close>, the rounding to the nearest double with ties to the even
  significand (53 bits, subnormals from \<open>2 powi (- 1074)\<close>). Comparisons of doubles are the
  comparisons of their values. Lengths and counts are integers far below \<open>2 ^ 53\<close>, which
  are doubles themselves, so sums of lengths are exact and stay natural numbers. Only
  the product of a constraint value can leave the finite range: \<open>number\<close> adds the two
  infinities for it. \<open>NaN\<close> does not arise: no operation here has an infinite or zero
  divisor or two infinite operands.
\<close>

definition ilog2 :: "rat \<Rightarrow> int" where
  \<comment> \<open>the exponent of a non-zero number: the \<open>k\<close> with \<open>2 powi k \<le> \<bar>x\<bar> < 2 powi (k + 1)\<close>\<close>
  "ilog2 x = (let (p, q) = quotient_of \<bar>x\<bar>; d = bitlen p - bitlen q
              in if 2 powi d \<le> \<bar>x\<bar> then d else d - 1)"

definition roundEven :: "rat \<Rightarrow> int" where
  \<comment> \<open>the nearest integer, the even one of the two when halfway\<close>
  "roundEven y = (let f = \<lfloor>y\<rfloor>; r = y - of_int f
                  in if r < 1 / 2 then f else if 1 / 2 < r then f + 1
                     else if even f then f else f + 1)"

definition nearestDouble :: "rat \<Rightarrow> rat" where
  \<comment> \<open>the nearest multiple of the unit in the last place of a 53-bit significand\<close>
  "nearestDouble x =
     (if x = 0 then 0
      else (let e = max (ilog2 x - 52) (- 1074) in of_int (roundEven (x / 2 powi e)) * 2 powi e))"

datatype number = Finite rat | PosInfinity | NegInfinity

definition roundDouble :: "rat \<Rightarrow> number" where
  \<comment> \<open>the double result of an operation whose exact result is \<open>x\<close>: a rounded value
     of magnitude \<open>2 ^ 1024\<close> or more is the infinity of its sign\<close>
  "roundDouble x =
     (let r = nearestDouble x
      in if 2 ^ 1024 \<le> r then PosInfinity
         else if r \<le> - (2 ^ 1024) then NegInfinity
         else Finite r)"

definition divideNumber :: "number \<Rightarrow> rat \<Rightarrow> number" where
  \<comment> \<open>\<open>x / d\<close> for a finite double \<open>d > 0\<close>\<close>
  "divideNumber x d =
     (case x of Finite a \<Rightarrow> roundDouble (a / d)
      | PosInfinity \<Rightarrow> PosInfinity
      | NegInfinity \<Rightarrow> NegInfinity)"

fun lessEqNumber :: "rat \<Rightarrow> number \<Rightarrow> bool" where
  \<comment> \<open>\<open>x <= y\<close> for a finite \<open>x\<close>\<close>
  "lessEqNumber x (Finite y) = (x \<le> y)"
| "lessEqNumber x PosInfinity = True"
| "lessEqNumber x NegInfinity = False"

section \<open>Resolving the input text (file-handler.ts)\<close>

text \<open>
  Errors are values: an \<open>Error\<close> is its message, and a result is \<open>string + 'a\<close> with
  \<open>Inl\<close> the message of the error thrown. Reading a file is the environment's: \<open>readFile\<close>
  gives the contents of a path or the message of the failure.
\<close>

type_synonym 'a result = "string + 'a"

definition readTextFile :: "(string \<Rightarrow> string result) \<Rightarrow> string \<Rightarrow> string result" where
  "readTextFile readFile filePath =
     (case readFile filePath of
        Inl msg \<Rightarrow> Inl (''Failed to read file '' @ filePath @ '': '' @ msg)
      | Inr content \<Rightarrow> Inr content)"

definition resolveTextContent ::
  "(string \<Rightarrow> string result) \<Rightarrow> string \<Rightarrow> bool \<Rightarrow> string result" where
  "resolveTextContent readFile content isFilePath =
     (if isFilePath then readTextFile readFile content else Inr content)"

section \<open>The transcript formatter (formatTranscript)\<close>

record Segment =
  time :: int
  "text" :: string

subsection \<open>Parsing the timestamped lines\<close>

fun matchTimestampAt :: "string \<Rightarrow> (int \<times> int \<times> int \<times> string) option" where
  \<comment> \<open>the pattern \<open>\[(\d{2}):(\d{2}):(\d{2})\]\s*(.*)\<close> matched at the start of the text:
     the three numbers read in base 10 and the fourth group\<close>
  "matchTimestampAt (b # h1 # h2 # c1 # m1 # m2 # c2 # s1 # s2 # e # rest) =
     (if b = CHR ''['' \<and> isDigit h1 \<and> isDigit h2 \<and> c1 = CHR '':'' \<and> isDigit m1 \<and> isDigit m2
         \<and> c2 = CHR '':'' \<and> isDigit s1 \<and> isDigit s2 \<and> e = CHR '']''
      then Some (10 * digitVal h1 + digitVal h2, 10 * digitVal m1 + digitVal m2,
                 10 * digitVal s1 + digitVal s2,
                 takeWhile (\<lambda>c. \<not> isLineTerminator c) (dropWhile isWhiteSpace rest))
      else None)"
| "matchTimestampAt _ = None"

fun matchTimestamp :: "string \<Rightarrow> (int \<times> int \<times> int \<times> string) option" where
  \<comment> \<open>\<open>line.match(...)\<close>: the leftmost position at which the pattern matches\<close>
  "matchTimestamp [] = matchTimestampAt []"
| "matchTimestamp (c # cs) =
     (case matchTimestampAt (c # cs) of Some m \<Rightarrow> Some m | None \<Rightarrow> matchTimestamp cs)"

fun parseLines :: "string list \<Rightarrow> Segment list \<Rightarrow> Segment list" where
  "parseLines [] segments = segments"
| "parseLines (line # lines) segments =
     parseLines lines
       (case matchTimestamp line of
          Some (hours, minutes, seconds, t) \<Rightarrow>
            segments @ [\<lparr>time = hours * 3600 + minutes * 60 + seconds, text = trim t\<rparr>]
        | None \<Rightarrow>
            (if length segments > 0
             then butlast segments @
                    [(last segments)\<lparr>text := text (last segments) @ '' '' @ trim line\<rparr>]
             else segments @ [\<lparr>time = 0, text = trim line\<rparr>]))"

definition parseTranscript :: "string \<Rightarrow> Segment list" where
  "parseTranscript textContent = parseLines (splitChar (CHR 0x0A) [] (trim textContent)) []"

subsection \<open>Assembling the text from the segments\<close>

definition endsWithSentenceMarker :: "string \<Rightarrow> bool" where
  \<comment> \<open>\<open>/[.!?]$/.test(formattedText)\<close>\<close>
  "endsWithSentenceMarker s \<longleftrightarrow> s \<noteq> [] \<and> isTerminator (last s)"

definition startsWithLowerCase :: "string \<Rightarrow> bool" where
  \<comment> \<open>\<open>/^[a-z]/.test(segment.text)\<close>\<close>
  "startsWithLowerCase s \<longleftrightarrow> s \<noteq> [] \<and> isLowerCase (hd s)"

definition lastChar :: "string \<Rightarrow> string" where
  \<comment> \<open>\<open>formattedText.charAt(formattedText.length - 1)\<close>, the empty text when there is none\<close>
  "lastChar s = (if s = [] then [] else [last s])"

definition assembleStep ::
  "rat \<Rightarrow> rat \<Rightarrow> nat \<Rightarrow> Segment \<Rightarrow> string \<times> int \<Rightarrow> string \<times> int" where
  \<comment> \<open>one round of the loop over the segments, on the pair (formattedText, lastTime)\<close>
  "assembleStep paragraph_gap line_gap i segment st =
     (let formattedText = fst st; lastTime = snd st in
      (if i = 0 then text segment
       else
         (let timeGap = time segment - lastTime in
          if of_int timeGap > paragraph_gap then formattedText @ [CHR 0x0A, CHR 0x0A] @ text segment
          else if of_int timeGap > line_gap then formattedText @ [CHR 0x0A] @ text segment
          else
            (if endsWithSentenceMarker formattedText then formattedText @ '' '' @ text segment
             else if lastChar formattedText = '','' \<or> lastChar formattedText = '';''
                     \<or> lastChar formattedText = '':'' then formattedText @ '' '' @ text segment
             else if startsWithLowerCase (text segment) then formattedText @ '' '' @ text segment
             else formattedText @ '' '' @ text segment)),
       time segment))"

fun assembleLoop ::
  "rat \<Rightarrow> rat \<Rightarrow> nat \<Rightarrow> Segment list \<Rightarrow> string \<times> int \<Rightarrow> string \<times> int" where
  "assembleLoop paragraph_gap line_gap i [] st = st"
| "assembleLoop paragraph_gap line_gap i (segment # segments) st =
     assembleLoop paragraph_gap line_gap (Suc i) segments
       (assembleStep paragraph_gap line_gap i segment st)"

definition assemble :: "rat \<Rightarrow> rat \<Rightarrow> Segment list \<Rightarrow> string \<times> int" where
  \<comment> \<open>the loop from \<open>formattedText = ''''\<close> and \<open>lastTime = -1\<close>\<close>
  "assemble paragraph_gap line_gap segments =
     assembleLoop paragraph_gap line_gap 0 segments ([], -1)"

subsection \<open>The assembler as the specification words it\<close>

definition breakMarker :: "rat \<Rightarrow> rat \<Rightarrow> int \<Rightarrow> string" where
  \<comment> \<open>the separator chosen from the gap alone: blank line, line break or one space\<close>
  "breakMarker paragraph_gap line_gap gap =
     (if of_int gap > paragraph_gap then [CHR 0x0A, CHR 0x0A]
      else if of_int gap > line_gap then [CHR 0x0A]
      else '' '')"

fun simpleAssemble :: "rat \<Rightarrow> rat \<Rightarrow> int \<Rightarrow> Segment list \<Rightarrow> string" where
  \<comment> \<open>the text added after a segment of time \<open>lastTime\<close>: every later segment is appended
     behind the separator of its gap, whatever the punctuation and capitalisation\<close>
  "simpleAssemble paragraph_gap line_gap lastTime [] = []"
| "simpleAssemble paragraph_gap line_gap lastTime (segment # segments) =
     breakMarker paragraph_gap line_gap (time segment - lastTime) @ text segment
       @ simpleAssemble paragraph_gap line_gap (time segment) segments"

definition simplifiedAssembler :: "rat \<Rightarrow> rat \<Rightarrow> Segment list \<Rightarrow> string" where
  "simplifiedAssembler paragraph_gap line_gap segments =
     (case segments of
        [] \<Rightarrow> []
      | first # others \<Rightarrow> text first @ simpleAssemble paragraph_gap line_gap (time first) others)"

record FormatTranscriptParams =
  input_text :: string
  is_file_path :: "bool option"
  paragraph_gap :: "rat option"
  line_gap :: "rat option"

definition formatTranscript ::
  "(string \<Rightarrow> string result) \<Rightarrow> FormatTranscriptParams \<Rightarrow> string result" where
  \<comment> \<open>the parameters left out take their defaults: no file path, 8 and 4 seconds\<close>
  "formatTranscript readFile params =
     (let isPath = (case is_file_path params of None \<Rightarrow> False | Some b \<Rightarrow> b);
          pgap = (case paragraph_gap params of None \<Rightarrow> 8 | Some g \<Rightarrow> g);
          lgap = (case line_gap params of None \<Rightarrow> 4 | Some g \<Rightarrow> g)
      in case resolveTextContent readFile (input_text params) isPath of
           Inl msg \<Rightarrow> Inl (''Formatting process failed: '' @ msg)
         | Inr textContent \<Rightarrow> Inr (fst (assemble pgap lgap (parseTranscript textContent))))"

section \<open>The summarizer (summaryText)\<close>

datatype constraintType = Time | Chars | Words

subsection \<open>Target length\<close>

definition ifTruthy :: "rat option \<Rightarrow> (rat \<Rightarrow> number) \<Rightarrow> number \<Rightarrow> number" where
  \<comment> \<open>\<open>constraint_value ? f(constraint_value) : d\<close>: \<open>null\<close> and 0 are falsy\<close>
  "ifTruthy v f d = (case v of None \<Rightarrow> d | Some x \<Rightarrow> if x = 0 then d else f x)"

definition targetLength :: "constraintType option \<Rightarrow> rat option \<Rightarrow> nat \<Rightarrow> nat \<Rightarrow> number" where
  "targetLength ctype cvalue wordCount contentLength =
     (if ctype = Some Time then
        (let baseRate = 150
         in ifTruthy cvalue (\<lambda>v. divideNumber (roundDouble (v * baseRate)) 60)
              (roundDouble (of_nat wordCount * nearestDouble 0.3)))
      else if ctype = Some Chars then
        ifTruthy cvalue (\<lambda>v. Finite v) (roundDouble (of_nat contentLength * nearestDouble 0.3))
      else if ctype = Some Words then
        ifTruthy cvalue (\<lambda>v. Finite v) (roundDouble (of_nat wordCount * nearestDouble 0.3))
      else roundDouble (of_nat wordCount * nearestDouble 0.3))"

definition targetMetric :: "constraintType option \<Rightarrow> constraintType" where
  \<comment> \<open>\<open>constraint_type === 'chars' ? 'chars' : 'words'\<close>\<close>
  "targetMetric ctype = (if ctype = Some Chars then Chars else Words)"

subsection \<open>Sentences and their scores\<close>

function sentenceMatches :: "string \<Rightarrow> string list" where
  \<comment> \<open>\<open>textContent.match(/[^.!?]+[.!?]+/g) || []\<close>: from the left, skip the terminators no
     sentence can start with, take the longest run of other characters, which must be
     followed by a terminator, and the longest run of terminators behind it\<close>
  "sentenceMatches s =
     (let s1 = dropWhile isTerminator s;
          body = takeWhile (\<lambda>c. \<not> isTerminator c) s1;
          r = dropWhile (\<lambda>c. \<not> isTerminator c) s1
      in if r = [] then []
         else (body @ takeWhile isTerminator r) # sentenceMatches (dropWhile isTerminator r))"
  by pat_completeness auto
termination
proof (relation "measure length")
  show "wf (measure length)" by simp
next
  fix s s1 body r :: string
  assume s1: "s1 = dropWhile isTerminator s"
    and r: "r = dropWhile (\<lambda>c. \<not> isTerminator c) s1" and ne: "r \<noteq> []"
  have "isTerminator (hd r)"
    using hd_dropWhile [of "\<lambda>c. \<not> isTerminator c" s1] r ne by simp
  then have "length (dropWhile isTerminator r) < length r"
    using ne by (cases r) (simp_all add: le_imp_less_Suc length_dropWhile_le)
  moreover have "length r \<le> length s1"
    using r by (simp add: length_dropWhile_le)
  moreover have "length s1 \<le> length s"
    using s1 by (simp add: length_dropWhile_le)
  ultimately show "(dropWhile isTerminator r, s) \<in> measure length" by simp
qed

declare sentenceMatches.simps [simp del]

definition positionScore :: "nat \<Rightarrow> nat \<Rightarrow> rat" where
  \<comment> \<open>\<open>1 - (index / sentences.length)\<close>\<close>
  "positionScore index n = nearestDouble (1 - nearestDouble (of_nat index / of_nat n))"

definition lengthScore :: "string \<Rightarrow> rat" where
  \<comment> \<open>\<open>Math.min(1, sentence.length / 100)\<close>\<close>
  "lengthScore sentence = min 1 (nearestDouble (of_nat (length sentence) / 100))"

definition score :: "nat \<Rightarrow> nat \<Rightarrow> string \<Rightarrow> rat" where
  \<comment> \<open>\<open>(positionScore * 0.7) + (lengthScore * 0.3)\<close>; the values are at most 1, far
     from the end of the finite range\<close>
  "score index n sentence =
     nearestDouble
       (nearestDouble (positionScore index n * nearestDouble 0.7)
        + nearestDouble (lengthScore sentence * nearestDouble 0.3))"

definition sentenceScores :: "string list \<Rightarrow> (string \<times> rat) list" where
  "sentenceScores sentences =
     map (\<lambda>(index, sentence). (sentence, score index (length sentences) sentence))
       (enumerate 0 sentences)"

definition sortByScore :: "(string \<times> rat) list \<Rightarrow> (string \<times> rat) list" where
  \<comment> \<open>\<open>sort((a, b) => b.score - a.score)\<close>: the difference of two doubles has the sign
     of the exact difference, and the sort of an array is stable, so this is the
     insertion sort on the negated score\<close>
  "sortByScore items = sort_key (\<lambda>item. - snd item) items"

subsection \<open>Greedy selection\<close>

definition sentenceLength :: "constraintType \<Rightarrow> string \<Rightarrow> nat" where
  "sentenceLength metric sentence =
     (if metric = Chars then length sentence else length (splitWhiteSpace sentence))"

fun selectLoop ::
  "number \<Rightarrow> constraintType \<Rightarrow> (string \<times> rat) list \<Rightarrow> string list \<times> nat \<Rightarrow> string list \<times> nat" where
  \<comment> \<open>the loop over the ranked items, on the pair (selectedSentences, currentLength)\<close>
  "selectLoop target metric [] st = st"
| "selectLoop target metric (item # items) st =
     (let selectedSentences = fst st; currentLength = snd st;
          n = sentenceLength metric (fst item)
      in if lessEqNumber (of_nat (currentLength + n)) target
         then selectLoop target metric items (selectedSentences @ [fst item], currentLength + n)
         else if length selectedSentences = 0 then (selectedSentences @ [fst item], currentLength)
         else (selectedSentences, currentLength))"

definition selectSentences ::
  "number \<Rightarrow> constraintType \<Rightarrow> (string \<times> rat) list \<Rightarrow> string list \<times> nat" where
  "selectSentences target metric items = selectLoop target metric items ([], 0)"

subsection \<open>Restoring the order of the text\<close>

fun findIndex :: "('a \<Rightarrow> bool) \<Rightarrow> 'a list \<Rightarrow> int" where
  \<comment> \<open>\<open>Array.prototype.findIndex\<close>: the first position that satisfies, or -1\<close>
  "findIndex P [] = -1"
| "findIndex P (x # xs) =
     (if P x then 0 else (let i = findIndex P xs in if i < 0 then -1 else i + 1))"

definition elementAt :: "'a list \<Rightarrow> int \<Rightarrow> 'a option" where
  \<comment> \<open>\<open>xs[i]\<close>, which is \<open>undefined\<close> (\<open>None\<close>) outside the array\<close>
  "elementAt xs i = (if 0 \<le> i \<and> i < int (length xs) then Some (xs ! nat i) else None)"

definition restoreOrder :: "string list \<Rightarrow> string list \<Rightarrow> string option list" where
  "restoreOrder sentences selectedSentences =
     (let sentenceIndexes = map (\<lambda>sentence. findIndex (\<lambda>s. s = sentence) sentences) selectedSentences;
          sortedIndexes = sort sentenceIndexes
      in map (\<lambda>index. elementAt sentences index) sortedIndexes)"

subsection \<open>The whole operation\<close>

definition summarize :: "constraintType option \<Rightarrow> rat option \<Rightarrow> string \<Rightarrow> string" where
  \<comment> \<open>the body of \<open>summaryText\<close> from the resolved text to the summary: target length,
     sentences, scores, ranking, selection, order of the text, join and trim\<close>
  "summarize ctype cvalue textContent =
     (let contentLength = length textContent;
          wordCount = length (splitWhiteSpace textContent);
          target = targetLength ctype cvalue wordCount contentLength;
          sentences = sentenceMatches textContent;
          ranked = sortByScore (sentenceScores sentences);
          selectedSentences = fst (selectSentences target (targetMetric ctype) ranked)
      in trim (join '' '' (restoreOrder sentences selectedSentences)))"

record SummaryTextParams =
  input_text :: string
  is_file_path :: "bool option"
  constraint_type :: "constraintType option"
  constraint_value :: "rat option"

definition summaryText ::
  "(string \<Rightarrow> string result) \<Rightarrow> string option \<Rightarrow> SummaryTextParams \<Rightarrow> string result" where
  \<comment> \<open>\<open>logFailure\<close> is the outcome of the session logger, which is the environment's:
     \<open>None\<close> when it records the run, the message of its error otherwise\<close>
  "summaryText readFile logFailure params =
     (let isPath = (case is_file_path params of None \<Rightarrow> False | Some b \<Rightarrow> b)
      in case resolveTextContent readFile (input_text params) isPath of
           Inl msg \<Rightarrow> Inl (''Summary process failed: '' @ msg)
         | Inr textContent \<Rightarrow>
             (case logFailure of
                Some msg \<Rightarrow> Inl (''Summary process failed: '' @ msg)
              | None \<Rightarrow>
                  Inr (summarize (constraint_type params) (constraint_value params) textContent)))"

section \<open>Notions of the specification\<close>

definition tokens :: "string \<Rightarrow> string list" where
  \<comment> \<open>the white-space-normalised tokens of a text: its non-empty pieces between runs of
     white space, in order\<close>
  "tokens s = filter (\<lambda>w. w \<noteq> []) (splitWhiteSpace s)"

definition wordCount :: "string \<Rightarrow> nat" where
  \<comment> \<open>the number of words of a text as the summarizer counts them:
     \<open>s.split(/\s+/).length\<close>\<close>
  "wordCount s = length (splitWhiteSpace s)"



section \<open>Properties of the assembler\<close>

lemma assembleLoop_simple:
  "assembleLoop pg lg (Suc i) segs (ft, lt) =
     (ft @ simpleAssemble pg lg lt segs, if segs = [] then lt else time (last segs))"
proof (induction segs arbitrary: i ft lt)
  case Nil
  then show ?case by simp
next
  case (Cons s segs)
  have "assembleStep pg lg (Suc i) s (ft, lt) =
          (ft @ breakMarker pg lg (time s - lt) @ text s, time s)"
    by (simp add: assembleStep_def breakMarker_def Let_def)
  then show ?case using Cons.IH by simp
qed

lemma assemble_Cons:
  "assemble pg lg (s # segs) =
     (text s @ simpleAssemble pg lg (time s) segs, time (last (s # segs)))"
  by (simp add: assemble_def assembleStep_def assembleLoop_simple)

lemma simpleAssemble_snoc:
  "simpleAssemble pg lg lt (segs @ [s]) =
     simpleAssemble pg lg lt segs
       @ breakMarker pg lg (time s - (if segs = [] then lt else time (last segs))) @ text s"
  by (induction segs arbitrary: lt) simp_all

lemma assemble_Nil: "assemble pg lg [] = ([], -1)"
  by (simp add: assemble_def)

text \<open>
  C5. The assembler emits the first segment as it is, with no break before it. Every
  later segment \<open>s\<close> is appended behind a blank line when its gap to the segment before
  exceeds \<open>paragraph_gap\<close>, behind a line break when the gap exceeds only \<open>line_gap\<close>, and
  behind one space otherwise; the gap is taken to \<open>lastTime\<close>, which after each round is
  the time of the segment of that round. Parameters left out are 8 and 4 seconds.
\<close>

theorem assembler_breaks_by_gap:
  "fst (assemble pg lg [first]) = text first
   \<and> take (length (text first)) (fst (assemble pg lg (first # segs))) = text first
   \<and> snd (assemble pg lg (first # segs)) = time (last (first # segs))
   \<and> fst (assemble pg lg (first # segs @ [s])) =
        fst (assemble pg lg (first # segs))
          @ (if of_int (time s - snd (assemble pg lg (first # segs))) > pg then [CHR 0x0A, CHR 0x0A]
             else if of_int (time s - snd (assemble pg lg (first # segs))) > lg then [CHR 0x0A]
             else '' '')
          @ text s
   \<and> formatTranscript readFile
        \<lparr>FormatTranscriptParams.input_text = t, is_file_path = None,
         paragraph_gap = None, line_gap = None\<rparr>
       = Inr (fst (assemble 8 4 (parseTranscript t)))"
proof -
  have "assemble pg lg (first # segs @ [s])
      = (text first @ simpleAssemble pg lg (time first) (segs @ [s]), time s)"
    using assemble_Cons [of pg lg first "segs @ [s]"] by simp
  then have "fst (assemble pg lg (first # segs @ [s]))
      = fst (assemble pg lg (first # segs))
          @ breakMarker pg lg (time s - snd (assemble pg lg (first # segs))) @ text s"
    by (simp add: assemble_Cons simpleAssemble_snoc)
  moreover have "formatTranscript readFile
        \<lparr>FormatTranscriptParams.input_text = t, is_file_path = None,
         paragraph_gap = None, line_gap = None\<rparr>
       = Inr (fst (assemble 8 4 (parseTranscript t)))"
    by (simp add: formatTranscript_def resolveTextContent_def)
  ultimately show ?thesis
    by (simp add: assemble_Cons breakMarker_def)
qed

theorem assembler_breaks_by_gap_witness:
  "fst (assemble 8 4 [\<lparr>time = 1, text = ''Hello there.''\<rparr>, \<lparr>time = 12, text = ''Next paragraph.''\<rparr>])
     = ''Hello there.'' @ [CHR 0x0A, CHR 0x0A] @ ''Next paragraph.''
   \<and> snd (assemble 8 4 [\<lparr>time = 1, text = ''Hello there.''\<rparr>, \<lparr>time = 12, text = ''Next paragraph.''\<rparr>])
     = 12
   \<and> formatTranscript (\<lambda>p. Inl ''ENOENT'')
        \<lparr>FormatTranscriptParams.input_text =
           ''[00:00:01] Hello there.'' @ [CHR 0x0A] @ ''[00:00:04] quick follow up.'',
         is_file_path = None, paragraph_gap = None, line_gap = None\<rparr>
       = Inr ''Hello there. quick follow up.''"
proof -
  have "fst (assemble 8 4 (parseTranscript
      (''[00:00:01] Hello there.'' @ [CHR 0x0A] @ ''[00:00:04] quick follow up.'')))
      = ''Hello there. quick follow up.''"
    by code_simp
  then show ?thesis
    using assembler_breaks_by_gap
      [of 8 4 "\<lparr>time = 1, text = ''Hello there.''\<rparr>" "[]"
          "\<lparr>time = 12, text = ''Next paragraph.''\<rparr>" "\<lambda>p. Inl ''ENOENT''"
          "''[00:00:01] Hello there.'' @ [CHR 0x0A] @ ''[00:00:04] quick follow up.''"]
      assembler_breaks_by_gap
      [of 8 4 "\<lparr>time = 1, text = ''Hello there.''\<rparr>"
          "[\<lparr>time = 12, text = ''Next paragraph.''\<rparr>]"]
    by simp
qed

text \<open>
  C8. In the inline case every branch on punctuation and capitalisation appends one space
  and the segment text, so the assembler is equal, on every input, to the simplified
  assembler that chooses the separator from the gap alone.
\<close>

theorem assembler_equals_simplified:
  "fst (assemble pg lg segs) = simplifiedAssembler pg lg segs"
proof (cases segs)
  case Nil
  then show ?thesis by (simp add: simplifiedAssembler_def assemble_Nil)
next
  case (Cons first others)
  then show ?thesis by (simp add: simplifiedAssembler_def assemble_Cons)
qed

theorem assembler_equals_simplified_witness:
  "fst (assemble 8 4 [\<lparr>time = 1, text = ''Hello there.''\<rparr>, \<lparr>time = 4, text = ''quick follow up.''\<rparr>])
     = ''Hello there. quick follow up.''"
  using assembler_equals_simplified
    [of 8 4 "[\<lparr>time = 1, text = ''Hello there.''\<rparr>, \<lparr>time = 4, text = ''quick follow up.''\<rparr>]"]
  by (simp add: simplifiedAssembler_def breakMarker_def)

subsection \<open>Tokens of the assembled text\<close>

lemma splitWhiteSpace_no_ws:
  assumes "\<forall>x\<in>set w. \<not> isWhiteSpace x"
  shows "splitWhiteSpace w = [w]"
proof -
  have "takeWhile (\<lambda>c. \<not> isWhiteSpace c) w = w" "dropWhile (\<lambda>c. \<not> isWhiteSpace c) w = []"
    using assms by simp_all
  then show ?thesis by (subst splitWhiteSpace.simps) (simp add: Let_def)
qed

lemma splitWhiteSpace_at_ws:
  assumes "\<forall>x\<in>set w. \<not> isWhiteSpace x" and "isWhiteSpace c"
  shows "splitWhiteSpace (w @ c # r) = w # splitWhiteSpace (dropWhile isWhiteSpace r)"
proof -
  have "takeWhile (\<lambda>c. \<not> isWhiteSpace c) (w @ c # r) = w"
    "dropWhile (\<lambda>c. \<not> isWhiteSpace c) (w @ c # r) = c # r"
    using assms by (simp_all add: takeWhile_append2 dropWhile_append2)
  then show ?thesis using assms(2) by (subst splitWhiteSpace.simps) (simp add: Let_def)
qed

lemma tokens_dropWhile: "tokens (dropWhile isWhiteSpace s) = tokens s"
proof (cases s)
  case Nil then show ?thesis by simp
next
  case (Cons c cs)
  show ?thesis
  proof (cases "isWhiteSpace c")
    case True
    have "splitWhiteSpace (c # cs) = [] # splitWhiteSpace (dropWhile isWhiteSpace cs)"
      using splitWhiteSpace_at_ws [of "[]" c cs] True by simp
    then show ?thesis using True Cons by (simp add: tokens_def)
  next
    case False then show ?thesis using Cons by simp
  qed
qed

lemma tokens_ws_prefix:
  assumes "\<forall>c\<in>set p. isWhiteSpace c"
  shows "tokens (p @ b) = tokens b"
proof -
  have "dropWhile isWhiteSpace (p @ b) = dropWhile isWhiteSpace b"
    using assms by (simp add: dropWhile_append2)
  then show ?thesis using tokens_dropWhile [of "p @ b"] tokens_dropWhile [of b] by simp
qed

lemma tokens_no_ws:
  "\<forall>x\<in>set w. \<not> isWhiteSpace x \<Longrightarrow> tokens w = filter (\<lambda>w. w \<noteq> []) [w]"
  by (simp only: tokens_def splitWhiteSpace_no_ws)

lemma tokens_at_ws:
  assumes "\<forall>x\<in>set w. \<not> isWhiteSpace x" and "isWhiteSpace c"
  shows "tokens (w @ c # r) = filter (\<lambda>w. w \<noteq> []) [w] @ tokens r"
proof -
  have "tokens (w @ c # r) = filter (\<lambda>w. w \<noteq> []) [w] @ tokens (dropWhile isWhiteSpace r)"
    unfolding tokens_def splitWhiteSpace_at_ws [OF assms] by simp
  then show ?thesis by (simp only: tokens_dropWhile)
qed

lemma tokens_append:
  assumes "sep \<noteq> []" "\<forall>c\<in>set sep. isWhiteSpace c"
  shows "tokens (a @ sep @ b) = tokens a @ tokens b"
proof (induction a rule: length_induct)
  case (1 s)
  obtain c0 cs0 where sep: "sep = c0 # cs0" using assms(1) by (cases sep) auto
  have c0: "isWhiteSpace c0" and cs0: "\<forall>c\<in>set cs0. isWhiteSpace c"
    using assms(2) sep by simp_all
  show ?case
  proof (cases "\<exists>x\<in>set s. isWhiteSpace x")
    case False
    then have nows: "\<forall>x\<in>set s. \<not> isWhiteSpace x" by simp
    have "tokens (s @ c0 # (cs0 @ b)) = filter (\<lambda>w. w \<noteq> []) [s] @ tokens (cs0 @ b)"
      by (rule tokens_at_ws [OF nows c0])
    also have "tokens (cs0 @ b) = tokens b" by (rule tokens_ws_prefix [OF cs0])
    also have "filter (\<lambda>w. w \<noteq> []) [s] = tokens s" by (rule tokens_no_ws [OF nows, symmetric])
    finally show ?thesis by (simp add: sep)
  next
    case True
    then obtain w c r where s: "s = w @ c # r" and c: "isWhiteSpace c"
      and w: "\<forall>x\<in>set w. \<not> isWhiteSpace x"
      using split_list_first_prop [of s isWhiteSpace] by blast
    have "length r < length s" using s by simp
    then have IH: "tokens (r @ sep @ b) = tokens r @ tokens b" using 1 by blast
    have "tokens (w @ c # (r @ sep @ b)) = filter (\<lambda>w. w \<noteq> []) [w] @ tokens (r @ sep @ b)"
      by (rule tokens_at_ws [OF w c])
    moreover have "tokens (w @ c # r) = filter (\<lambda>w. w \<noteq> []) [w] @ tokens r"
      by (rule tokens_at_ws [OF w c])
    ultimately show ?thesis using IH by (simp add: s)
  qed
qed

lemma breakMarker_ws: "breakMarker pg lg g \<noteq> [] \<and> (\<forall>c\<in>set (breakMarker pg lg g). isWhiteSpace c)"
  by (simp add: breakMarker_def isWhiteSpace_def)

lemma tokens_simpleAssemble:
  "tokens (a @ simpleAssemble pg lg lt segs) = tokens a @ concat (map (\<lambda>s. tokens (text s)) segs)"
proof (induction segs arbitrary: a lt)
  case Nil then show ?case by simp
next
  case (Cons s segs)
  have "tokens (a @ simpleAssemble pg lg lt (s # segs))
      = tokens ((a @ breakMarker pg lg (time s - lt) @ text s) @ simpleAssemble pg lg (time s) segs)"
    by simp
  also have "\<dots> = tokens (a @ breakMarker pg lg (time s - lt) @ text s) @ concat (map (\<lambda>s. tokens (text s)) segs)"
    by (rule Cons.IH)
  also have "tokens (a @ breakMarker pg lg (time s - lt) @ text s) = tokens a @ tokens (text s)"
    using breakMarker_ws by (intro tokens_append) auto
  finally show ?case by simp
qed

lemma tokens_Nil: "tokens [] = []"
  using splitWhiteSpace_no_ws [of "[]"] by (simp add: tokens_def)

lemma tokens_assemble:
  "tokens (fst (assemble pg lg segs)) = concat (map (\<lambda>s. tokens (text s)) segs)"
proof (cases segs)
  case Nil
  then show ?thesis by (simp add: assemble_Nil tokens_Nil)
next
  case (Cons s ss)
  then show ?thesis
    using tokens_simpleAssemble [of "text s" pg lg "time s" ss]
    by (simp add: assemble_Cons)
qed

text \<open>
  C4. The tokens of the assembled text are the tokens of the segment texts, in the order
  of the segments, for every segment sequence and every pair of thresholds: as lists,
  hence as multisets. No word is dropped, duplicated or altered.
\<close>

theorem assembler_preserves_tokens:
  "tokens (fst (assemble pg lg segs)) = concat (map (\<lambda>s. tokens (text s)) segs)
   \<and> mset (tokens (fst (assemble pg lg segs))) = (\<Sum>s\<leftarrow>segs. mset (tokens (text s)))"
proof -
  have "mset (concat (map (\<lambda>s. tokens (text s)) segs)) = (\<Sum>s\<leftarrow>segs. mset (tokens (text s)))"
    by (induction segs) simp_all
  then show ?thesis by (simp add: tokens_assemble)
qed

theorem assembler_preserves_tokens_witness:
  "tokens (fst (assemble 8 4
      [\<lparr>time = 1, text = ''Hello  there.''\<rparr>, \<lparr>time = 12, text = '' Next paragraph. ''\<rparr>]))
     = [''Hello'', ''there.'', ''Next'', ''paragraph.'']"
proof -
  have "tokens ''Hello  there.'' = [''Hello'', ''there.'']"
    "tokens '' Next paragraph. '' = [''Next'', ''paragraph.'']"
    by code_simp+
  then show ?thesis
    using assembler_preserves_tokens
      [of 8 4 "[\<lparr>time = 1, text = ''Hello  there.''\<rparr>, \<lparr>time = 12, text = '' Next paragraph. ''\<rparr>]"]
    by simp
qed

section \<open>Properties of the sentence extraction\<close>

lemma takeWhile_dropWhile_same: "takeWhile P (dropWhile P xs) = []"
  by (induction xs) simp_all

lemma sentenceMatches_shape:
  "\<forall>x\<in>set (sentenceMatches s). x \<noteq> [] \<and> \<not> isTerminator (hd x) \<and> isTerminator (last x)"
proof (induction s rule: sentenceMatches.induct)
  case (1 s)
  define s1 where "s1 = dropWhile isTerminator s"
  define body where "body = takeWhile (\<lambda>c. \<not> isTerminator c) s1"
  define r where "r = dropWhile (\<lambda>c. \<not> isTerminator c) s1"
  show ?case
  proof (cases "r = []")
    case True
    then have "sentenceMatches s = []"
      by (subst sentenceMatches.simps) (simp add: Let_def s1_def r_def)
    then show ?thesis by simp
  next
    case False
    have unf: "sentenceMatches s =
        (body @ takeWhile isTerminator r) # sentenceMatches (dropWhile isTerminator r)"
      using False by (subst sentenceMatches.simps) (simp add: Let_def s1_def r_def body_def)
    have IH: "\<forall>x\<in>set (sentenceMatches (dropWhile isTerminator r)).
        x \<noteq> [] \<and> \<not> isTerminator (hd x) \<and> isTerminator (last x)"
      using 1 [OF s1_def body_def r_def False] .
    have hr: "isTerminator (hd r)"
      using hd_dropWhile [of "\<lambda>c. \<not> isTerminator c" s1] False r_def by simp
    then have tw: "takeWhile isTerminator r \<noteq> []"
      using False by (cases r) simp_all
    have lt: "isTerminator (last (takeWhile isTerminator r))"
      using last_in_set [OF tw] set_takeWhileD by fast
    have s1: "s1 = body @ r" by (simp add: body_def r_def)
    have "s1 \<noteq> []" using False s1 by simp
    then have "\<not> isTerminator (hd s1)"
      using hd_dropWhile [of isTerminator s] s1_def by simp
    then have "body \<noteq> []" using hr s1 by (cases body) auto
    then have "\<not> isTerminator (hd (body @ takeWhile isTerminator r))"
      using \<open>\<not> isTerminator (hd s1)\<close> s1 by simp
    then show ?thesis using unf IH tw lt by simp
  qed
qed

lemma sentenceMatches_decompose:
  "\<exists>rest. s = takeWhile isTerminator s @ concat (sentenceMatches s) @ rest
          \<and> (\<forall>c\<in>set rest. \<not> isTerminator c)"
proof (induction s rule: sentenceMatches.induct)
  case (1 s)
  define s1 where "s1 = dropWhile isTerminator s"
  define body where "body = takeWhile (\<lambda>c. \<not> isTerminator c) s1"
  define r where "r = dropWhile (\<lambda>c. \<not> isTerminator c) s1"
  have s: "s = takeWhile isTerminator s @ s1" by (simp add: s1_def)
  have s1: "s1 = body @ r" by (simp add: body_def r_def)
  show ?case
  proof (cases "r = []")
    case True
    then have "sentenceMatches s = []"
      by (subst sentenceMatches.simps) (simp add: Let_def s1_def r_def)
    moreover have "\<forall>c\<in>set body. \<not> isTerminator c"
      unfolding body_def using set_takeWhileD by fast
    ultimately show ?thesis using s s1 True by (intro exI [of _ body]) simp
  next
    case False
    define r' where "r' = dropWhile isTerminator r"
    have unf: "sentenceMatches s = (body @ takeWhile isTerminator r) # sentenceMatches r'"
      using False by (subst sentenceMatches.simps) (simp add: Let_def s1_def r_def body_def r'_def)
    obtain rest where rest: "r' = takeWhile isTerminator r' @ concat (sentenceMatches r') @ rest"
      and nt: "\<forall>c\<in>set rest. \<not> isTerminator c"
      using 1 [OF s1_def body_def r_def False] unfolding r'_def by blast
    have "takeWhile isTerminator r' = []"
      unfolding r'_def by (rule takeWhile_dropWhile_same)
    then have r': "r' = concat (sentenceMatches r') @ rest" using rest by simp
    have "r = takeWhile isTerminator r @ r'" by (simp add: r'_def)
    then have "s1 = body @ takeWhile isTerminator r @ concat (sentenceMatches r') @ rest"
      using s1 r' by simp
    then have "s = takeWhile isTerminator s @ concat (sentenceMatches s) @ rest"
      using s unf by simp
    then show ?thesis using nt by blast
  qed
qed

lemma concat_sentences_last:
  assumes "sentenceMatches s \<noteq> []"
  shows "concat (sentenceMatches s) \<noteq> [] \<and> isTerminator (last (concat (sentenceMatches s)))"
proof -
  have l: "last (sentenceMatches s) \<in> set (sentenceMatches s)" using assms by simp
  then have ne: "last (sentenceMatches s) \<noteq> []" and t: "isTerminator (last (last (sentenceMatches s)))"
    using sentenceMatches_shape [of s] by auto
  have "concat (sentenceMatches s) = concat (butlast (sentenceMatches s)) @ last (sentenceMatches s)"
    using assms by (cases "sentenceMatches s" rule: rev_cases) simp_all
  then show ?thesis using ne t by simp
qed

text \<open>
  C9, as the code has it. The sentences are adjacent, non-overlapping pieces of the text in
  their order; before them the text has only the terminators it starts with, and behind them
  only a remainder without terminator, both of which belong to no sentence. Every sentence
  is a non-empty run that starts with a character other than a terminator and ends with a
  terminator. The sentences cover the whole text exactly when the text is empty, or does
  not start with a terminator and ends with one.
\<close>

theorem sentences_cover_terminated_part:
  "(\<exists>rest. t = takeWhile isTerminator t @ concat (sentenceMatches t) @ rest
          \<and> (\<forall>c\<in>set rest. \<not> isTerminator c))
   \<and> (\<forall>x\<in>set (sentenceMatches t). x \<noteq> [] \<and> \<not> isTerminator (hd x) \<and> isTerminator (last x))
   \<and> (concat (sentenceMatches t) = t \<longleftrightarrow> t = [] \<or> (t \<noteq> [] \<and> \<not> isTerminator (hd t) \<and> isTerminator (last t)))"
proof -
  obtain rest where d: "t = takeWhile isTerminator t @ concat (sentenceMatches t) @ rest"
      and nt: "\<forall>c\<in>set rest. \<not> isTerminator c"
    using sentenceMatches_decompose by blast
  have "concat (sentenceMatches t) = t \<longleftrightarrow> t = [] \<or> (t \<noteq> [] \<and> \<not> isTerminator (hd t) \<and> isTerminator (last t))"
  proof
    assume eq: "concat (sentenceMatches t) = t"
    show "t = [] \<or> (t \<noteq> [] \<and> \<not> isTerminator (hd t) \<and> isTerminator (last t))"
    proof (cases "t = []")
      case False
      then have ne: "sentenceMatches t \<noteq> []" using eq by auto
      then have "isTerminator (last t)" using concat_sentences_last [OF ne] eq by simp
      moreover have "length t = length (takeWhile isTerminator t) + length t + length rest"
        using arg_cong [OF d, of length] eq by simp
      then have "takeWhile isTerminator t = []" by simp
      then have "\<not> isTerminator (hd t)" using False by (cases t) (auto split: if_splits)
      ultimately show ?thesis by simp
    qed simp
  next
    assume "t = [] \<or> (t \<noteq> [] \<and> \<not> isTerminator (hd t) \<and> isTerminator (last t))"
    then show "concat (sentenceMatches t) = t"
    proof
      assume "t = []" then show ?thesis using d by simp
    next
      assume a: "t \<noteq> [] \<and> \<not> isTerminator (hd t) \<and> isTerminator (last t)"
      then have tne: "t \<noteq> []" by simp
      have "takeWhile isTerminator t = []" using a tne by (cases t) auto
      then have d': "t = concat (sentenceMatches t) @ rest" using d by simp
      have "rest = []"
      proof (rule ccontr)
        assume "rest \<noteq> []"
        then have "last (concat (sentenceMatches t) @ rest) = last rest" by simp
        then have "last t = last rest" using d' by simp
        then show False using a nt last_in_set [OF \<open>rest \<noteq> []\<close>] by auto
      qed
      then show ?thesis using d' by simp
    qed
  qed
  then show ?thesis using sentenceMatches_decompose [of t] sentenceMatches_shape [of t] by blast
qed

theorem sentences_cover_terminated_part_witness:
  "(\<exists>rest. ''..Hi there! How are you?? fine'' =
        ''..'' @ concat [''Hi there!'', '' How are you??''] @ rest
        \<and> (\<forall>c\<in>set rest. \<not> isTerminator c))
   \<and> isTerminator (last '' How are you??'')
   \<and> concat [''Hi there!'', '' How are you??''] \<noteq> ''..Hi there! How are you?? fine''"
proof -
  have "sentenceMatches ''..Hi there! How are you?? fine'' = [''Hi there!'', '' How are you??'']"
    by code_simp
  moreover have "takeWhile isTerminator ''..Hi there! How are you?? fine'' = ''..''"
    by code_simp
  ultimately show ?thesis
    using sentences_cover_terminated_part [of "''..Hi there! How are you?? fine''"]
    by simp
qed

text \<open>
  The claim C9 as stated fails: the text after the last terminator is in no sentence.
\<close>

theorem sentences_drop_unterminated_tail:
  "sentenceMatches ''Hello. World'' = [''Hello.'']
   \<and> concat (sentenceMatches ''Hello. World'') \<noteq> ''Hello. World''"
  by code_simp

section \<open>Properties of the rounding\<close>

lemma bitlen_powi_bounds:
  assumes "0 < p"
  shows "(2::rat) powi (bitlen p - 1) \<le> of_int p" "of_int p < (2::rat) powi (bitlen p)"
proof -
  have b: "2 ^ nat (bitlen p - 1) \<le> p" "p < 2 ^ nat (bitlen p)"
    using bitlen_bounds [OF assms] by simp_all
  have pos: "1 \<le> bitlen p" using assms bitlen_eq_zero_iff [of p] bitlen_nonneg [of p] by linarith
  have "(of_int (2 ^ nat (bitlen p - 1)) :: rat) \<le> of_int p"
    using b(1) by (simp only: of_int_le_iff)
  then show "(2::rat) powi (bitlen p - 1) \<le> of_int p"
    using pos by (simp add: power_int_def)
  have "(of_int p :: rat) < of_int (2 ^ nat (bitlen p))"
    using b(2) by (simp only: of_int_less_iff)
  then show "of_int p < (2::rat) powi (bitlen p)"
    using pos by (simp add: power_int_def)
qed

lemma ilog2_bounds:
  assumes "0 < x"
  shows "2 powi (ilog2 x) \<le> x" "x < 2 powi (ilog2 x + 1)"
proof -
  obtain p q where pq: "quotient_of x = (p, q)" by (cases "quotient_of x")
  have q: "0 < q" using quotient_of_denom_pos [OF pq] .
  have x: "x = of_int p / of_int q" using quotient_of_div [OF pq] .
  have p: "0 < p" using assms q x by (simp add: zero_less_divide_iff)
  define d where "d = bitlen p - bitlen q"
  have ax: "\<bar>x\<bar> = x" using assms by simp
  have il: "ilog2 x = (if 2 powi d \<le> x then d else d - 1)"
    by (simp add: ilog2_def ax pq d_def Let_def)
  have qpos: "(0::rat) < of_int q" using q by simp
  have up: "x < 2 powi (d + 1)"
  proof -
    have "of_int p < (2::rat) powi (bitlen p)" using bitlen_powi_bounds(2) [OF p] .
    moreover have "(2::rat) powi (bitlen q - 1) \<le> of_int q" using bitlen_powi_bounds(1) [OF q] .
    moreover have "(0::rat) < 2 powi (bitlen q - 1)" by simp
    moreover have "(0::rat) \<le> of_int p" using p by simp
    ultimately have "of_int p / of_int q < (2::rat) powi (bitlen p) / 2 powi (bitlen q - 1)"
      using qpos by (intro frac_less) simp_all
    also have "\<dots> = 2 powi (bitlen p - (bitlen q - 1))"
      by (subst power_int_diff) simp_all
    also have "bitlen p - (bitlen q - 1) = d + 1"
      by (simp add: d_def)
    finally show ?thesis using x by simp
  qed
  have lo: "2 powi (d - 1) \<le> x"
  proof -
    have "(2::rat) powi (bitlen p - 1) \<le> of_int p" using bitlen_powi_bounds(1) [OF p] .
    moreover have "of_int q \<le> (2::rat) powi (bitlen q)" using bitlen_powi_bounds(2) [OF q] by simp
    ultimately have "(2::rat) powi (bitlen p - 1) / 2 powi (bitlen q) \<le> of_int p / of_int q"
      using qpos p by (intro frac_le) simp_all
    moreover have "(2::rat) powi (bitlen p - 1) / 2 powi (bitlen q) = 2 powi (bitlen p - 1 - bitlen q)"
      by (subst power_int_diff) simp_all
    moreover have "bitlen p - 1 - bitlen q = d - 1"
      by (simp add: d_def)
    ultimately show ?thesis using x by simp
  qed
  show "2 powi (ilog2 x) \<le> x" using il lo by (simp split: if_splits)
  show "x < 2 powi (ilog2 x + 1)" using il up by (simp split: if_splits add: not_le)
qed

lemma ilog2_abs: "ilog2 \<bar>x\<bar> = ilog2 x"
  by (simp add: ilog2_def)

lemma ilog2_le_0:
  assumes "x \<noteq> 0" "\<bar>x\<bar> < 2"
  shows "ilog2 x \<le> 0"
proof -
  have "2 powi (ilog2 \<bar>x\<bar>) \<le> \<bar>x\<bar>" using ilog2_bounds(1) [of "\<bar>x\<bar>"] assms by simp
  then have "(2::rat) powi (ilog2 x) < 2 powi 1" using assms by (simp add: ilog2_abs)
  then show ?thesis using power_int_le_imp_less_exp [of "2::rat" "ilog2 x" 1] by simp
qed

lemma ilog2_ge_0:
  assumes "1 \<le> x"
  shows "0 \<le> ilog2 x"
proof -
  have "x < 2 powi (ilog2 x + 1)" using ilog2_bounds(2) [of x] assms by simp
  then have less: "1 < (2::rat) powi (ilog2 x + 1)" using assms by simp
  show ?thesis
  proof (rule ccontr)
    assume "\<not> 0 \<le> ilog2 x"
    then have "ilog2 x + 1 \<le> 0" by simp
    then have "(2::rat) powi (ilog2 x + 1) \<le> 2 powi 0"
      by (intro power_int_increasing) simp_all
    then show False using less by simp
  qed
qed

lemma roundEven_error: "\<bar>of_int (roundEven y) - y\<bar> \<le> 1 / 2"
proof -
  have "of_int \<lfloor>y\<rfloor> \<le> y" "y < of_int \<lfloor>y\<rfloor> + 1" by linarith+
  then show ?thesis by (auto simp: roundEven_def Let_def)
qed

lemma roundEven_ge: "of_int k \<le> y \<Longrightarrow> k \<le> roundEven y"
proof -
  assume "of_int k \<le> y"
  then have "k \<le> \<lfloor>y\<rfloor>" by (simp add: le_floor_iff)
  then show ?thesis by (auto simp: roundEven_def Let_def)
qed

lemma nearestDouble_error:
  assumes "\<bar>x\<bar> < 2"
  shows "\<bar>nearestDouble x - x\<bar> \<le> 1 / 2 ^ 53"
proof (cases "x = 0")
  case True then show ?thesis by (simp add: nearestDouble_def)
next
  case False
  define e where "e = max (ilog2 x - 52) (- 1074)"
  have e: "e \<le> - 52" using ilog2_le_0 [OF False assms] by (simp add: e_def)
  have pe: "(0::rat) < 2 powi e" by simp
  have nd: "nearestDouble x = of_int (roundEven (x / 2 powi e)) * 2 powi e"
    using False by (simp add: nearestDouble_def e_def Let_def)
  have "nearestDouble x - x = (of_int (roundEven (x / 2 powi e)) - x / 2 powi e) * 2 powi e"
    using pe by (simp add: nd algebra_simps)
  then have "\<bar>nearestDouble x - x\<bar> = \<bar>of_int (roundEven (x / 2 powi e)) - x / 2 powi e\<bar> * 2 powi e"
    using pe by (simp add: abs_mult)
  also have "\<dots> \<le> 1 / 2 * 2 powi e"
    using roundEven_error [of "x / 2 powi e"] pe by (intro mult_right_mono) simp_all
  also have "(2::rat) powi e \<le> 2 powi (- 52)"
    using e by (intro power_int_increasing) simp_all
  finally have "\<bar>nearestDouble x - x\<bar> \<le> 1 / 2 * 2 powi (- 52)" by simp
  then show ?thesis by (simp add: power_int_minus_divide)
qed

lemma nearestDouble_ge_1:
  assumes "1 \<le> x"
  shows "1 \<le> nearestDouble x"
proof -
  have x0: "x \<noteq> 0" "0 < x" using assms by simp_all
  have i0: "0 \<le> ilog2 x" using ilog2_ge_0 [OF assms] .
  define e where "e = ilog2 x - 52"
  have emax: "max (ilog2 x - 52) (- 1074) = e" using i0 by (simp add: e_def)
  have pe: "(0::rat) < 2 powi e" by simp
  have nd: "nearestDouble x = of_int (roundEven (x / 2 powi e)) * 2 powi e"
    using x0 by (simp add: nearestDouble_def emax Let_def)
  have "2 powi (ilog2 x) \<le> x" using ilog2_bounds(1) [OF x0(2)] .
  then have "2 powi (ilog2 x) / 2 powi e \<le> x / 2 powi e"
    using pe by (simp add: divide_right_mono)
  moreover have "(2::rat) powi (ilog2 x) / 2 powi e = 2 powi (ilog2 x - e)"
    by (subst power_int_diff) simp_all
  moreover have "(2::rat) powi (ilog2 x - e) = of_int (2 ^ 52)"
    by (simp add: e_def)
  ultimately have "(2 ^ 52 :: int) \<le> roundEven (x / 2 powi e)"
    by (intro roundEven_ge) simp
  then have "(of_int (2 ^ 52) :: rat) \<le> of_int (roundEven (x / 2 powi e))"
    by (simp only: of_int_le_iff)
  then have "of_int (2 ^ 52) * 2 powi e \<le> nearestDouble x"
    using pe by (simp add: nd)
  moreover have "(2::rat) powi 52 * 2 powi e = 2 powi (52 + e)"
    by (subst power_int_add) simp_all
  then have "of_int (2 ^ 52) * (2::rat) powi e = 2 powi (ilog2 x)"
    by (simp add: e_def)
  moreover have "(1::rat) \<le> 2 powi (ilog2 x)"
    using i0 by (simp add: one_le_power_int)
  ultimately show ?thesis by simp
qed

lemma abs_product_le:
  fixes x d :: rat
  assumes "\<bar>x\<bar> \<le> X" "\<bar>d\<bar> \<le> D"
  shows "\<bar>x * d\<bar> \<le> X * D"
proof -
  have "0 \<le> \<bar>x\<bar>" "0 \<le> \<bar>d\<bar>" by simp_all
  then have "\<bar>x\<bar> * \<bar>d\<bar> \<le> X * D" using assms by (intro mult_mono) linarith+
  then show ?thesis by (simp add: abs_mult)
qed

section \<open>Properties of the scores\<close>

lemma positionScore_error:
  assumes "i \<le> n" "0 < n"
  shows "\<bar>positionScore i n - (1 - of_nat i / of_nat n)\<bar> \<le> 2 / 2 ^ 53"
proof -
  define a :: rat where "a = of_nat i / of_nat n"
  have a: "0 \<le> a" "a \<le> 1" using assms by (simp_all add: a_def)
  have fa: "\<bar>nearestDouble a - a\<bar> \<le> 1 / 2 ^ 53"
    using a by (intro nearestDouble_error) simp
  then have "\<bar>1 - nearestDouble a\<bar> < 2" using a by (simp add: abs_if split: if_splits)
  then have "\<bar>nearestDouble (1 - nearestDouble a) - (1 - nearestDouble a)\<bar> \<le> 1 / 2 ^ 53"
    by (rule nearestDouble_error)
  then show ?thesis using fa unfolding positionScore_def a_def [symmetric] by linarith
qed

lemma lengthScore_cap:
  assumes "100 \<le> length s"
  shows "lengthScore s = 1"
proof -
  have "(1::rat) \<le> of_nat (length s) / 100" using assms by simp
  then have "1 \<le> nearestDouble (of_nat (length s) / 100)" by (rule nearestDouble_ge_1)
  then show ?thesis by (simp add: lengthScore_def)
qed

lemma lengthScore_error:
  "\<bar>lengthScore s - min 1 (of_nat (length s) / 100)\<bar> \<le> 1 / 2 ^ 53"
proof (cases "100 \<le> length s")
  case True
  then have "min 1 (of_nat (length s) / 100) = (1::rat)" by simp
  then show ?thesis using lengthScore_cap [OF True] by simp
next
  case False
  define l :: rat where "l = of_nat (length s) / 100"
  have l: "0 \<le> l" "l < 1" using False by (simp_all add: l_def)
  have "\<bar>nearestDouble l - l\<bar> \<le> 1 / 2 ^ 53"
    using l by (intro nearestDouble_error) simp
  then show ?thesis unfolding lengthScore_def l_def [symmetric] using l by (simp add: min_def abs_if split: if_splits)
qed

lemma score_error:
  assumes "i \<le> n" "0 < n"
  shows "\<bar>score i n s - (0.7 * (1 - of_nat i / of_nat n) + 0.3 * min 1 (of_nat (length s) / 100))\<bar>
           \<le> 1 / 2 ^ 50"
proof -
  define p :: rat where "p = 1 - of_nat i / of_nat n"
  define l :: rat where "l = min 1 (of_nat (length s) / 100)"
  define u :: rat where "u = 1 / 2 ^ 53"
  have u: "u = 1 / 9007199254740992" by (simp add: u_def)
  have p: "0 \<le> p" "p \<le> 1" using assms by (simp_all add: p_def)
  have l: "0 \<le> l" "l \<le> 1" by (simp_all add: l_def)
  have ep: "\<bar>positionScore i n - p\<bar> \<le> 2 * u"
    using positionScore_error [OF assms] by (simp add: p_def u_def)
  have el: "\<bar>lengthScore s - l\<bar> \<le> u"
    using lengthScore_error [of s] by (simp add: l_def u_def)
  have e7: "\<bar>nearestDouble 0.7 - 0.7\<bar> \<le> u"
    unfolding u_def by (intro nearestDouble_error) simp
  have e3: "\<bar>nearestDouble 0.3 - 0.3\<bar> \<le> u"
    unfolding u_def by (intro nearestDouble_error) simp
  have bp: "\<bar>positionScore i n\<bar> \<le> 1 + 2 * u" using ep p by (simp add: abs_if split: if_splits)
  have bl: "\<bar>lengthScore s\<bar> \<le> 1 + u" using el l by (simp add: abs_if split: if_splits)
  define P where "P = positionScore i n * nearestDouble 0.7"
  define Q where "Q = lengthScore s * nearestDouble 0.3"
  define A where "A = positionScore i n * (nearestDouble 0.7 - 0.7)"
  define B where "B = positionScore i n - p"
  define C where "C = lengthScore s * (nearestDouble 0.3 - 0.3)"
  define D where "D = lengthScore s - l"
  have PA: "P - 0.7 * p = A + 0.7 * B"
    by (simp add: P_def A_def B_def field_simps)
  have QC: "Q - 0.3 * l = C + 0.3 * D"
    by (simp add: Q_def C_def D_def field_simps)
  have "\<bar>A\<bar> \<le> (1 + 2 * u) * u"
    unfolding A_def using bp e7 by (rule abs_product_le)
  moreover have "(1 + 2 * u) * u \<le> 1.1 * u" by (simp add: u)
  ultimately have eA: "\<bar>A\<bar> \<le> 1.1 * u" by linarith
  have "\<bar>C\<bar> \<le> (1 + u) * u"
    unfolding C_def using bl e3 by (rule abs_product_le)
  moreover have "(1 + u) * u \<le> 1.1 * u" by (simp add: u)
  ultimately have eC: "\<bar>C\<bar> \<le> 1.1 * u" by linarith
  have eB: "\<bar>B\<bar> \<le> 2 * u" using ep by (simp add: B_def)
  have eD: "\<bar>D\<bar> \<le> u" using el by (simp add: D_def)
  have eP: "\<bar>P - 0.7 * p\<bar> \<le> 2.5 * u" using PA eA eB by linarith
  have eQ: "\<bar>Q - 0.3 * l\<bar> \<le> 1.4 * u" using QC eC eD by linarith
  have P2: "\<bar>P\<bar> < 2" using eP p u by linarith
  have Q2: "\<bar>Q\<bar> < 2" using eQ l u by linarith
  have rP: "\<bar>nearestDouble P - P\<bar> \<le> u" unfolding u_def using P2 by (rule nearestDouble_error)
  have rQ: "\<bar>nearestDouble Q - Q\<bar> \<le> u" unfolding u_def using Q2 by (rule nearestDouble_error)
  define S where "S = nearestDouble P + nearestDouble Q"
  have eS: "\<bar>S - (0.7 * p + 0.3 * l)\<bar> \<le> 5.9 * u"
    unfolding S_def using eP eQ rP rQ by linarith
  then have S2: "\<bar>S\<bar> < 2" using p l u by linarith
  have rS: "\<bar>nearestDouble S - S\<bar> \<le> u" unfolding u_def using S2 by (rule nearestDouble_error)
  have "score i n s = nearestDouble S" by (simp add: score_def S_def P_def Q_def)
  then have "\<bar>score i n s - (0.7 * p + 0.3 * l)\<bar> \<le> 8 * u"
    using eS rS u by linarith
  then show ?thesis by (simp add: p_def l_def u)
qed

lemma positionScore_strict:
  assumes "i < j" "j < n" "n < 2 ^ 51"
  shows "positionScore j n < positionScore i n"
proof -
  define a :: rat where "a = of_nat i / of_nat n"
  define b :: rat where "b = of_nat j / of_nat n"
  define u :: rat where "u = 1 / 2 ^ 53"
  have npos: "(0::rat) < of_nat n" using assms by simp
  have a: "0 \<le> a" "a < 1" using assms by (simp_all add: a_def)
  have b: "0 \<le> b" "b < 1" using assms by (simp_all add: b_def)
  have "b - a = of_nat (j - i) / of_nat n"
    using assms by (simp add: a_def b_def of_nat_diff diff_divide_distrib)
  moreover have "(1::rat) \<le> of_nat (j - i)" using assms by simp
  ultimately have "1 / of_nat n \<le> b - a" using npos by (simp add: divide_right_mono)
  moreover have "(of_nat n :: rat) < 2 ^ 51"
    using assms(3) by (metis of_nat_less_iff of_nat_numeral of_nat_power)
  then have "1 / (2 ^ 51 :: rat) < 1 / of_nat n"
    using npos by (simp add: frac_less2)
  ultimately have gap: "4 * u < b - a" by (simp add: u_def)
  have fa: "\<bar>nearestDouble a - a\<bar> \<le> u" unfolding u_def using a by (intro nearestDouble_error) simp
  have fb: "\<bar>nearestDouble b - b\<bar> \<le> u" unfolding u_def using b by (intro nearestDouble_error) simp
  have u: "u = 1 / 9007199254740992" by (simp add: u_def)
  have "\<bar>1 - nearestDouble a\<bar> < 2" using fa a unfolding u by (simp add: abs_if split: if_splits)
  then have ra: "\<bar>nearestDouble (1 - nearestDouble a) - (1 - nearestDouble a)\<bar> \<le> u"
    unfolding u_def by (rule nearestDouble_error)
  have "\<bar>1 - nearestDouble b\<bar> < 2" using fb b unfolding u by (simp add: abs_if split: if_splits)
  then have rb: "\<bar>nearestDouble (1 - nearestDouble b) - (1 - nearestDouble b)\<bar> \<le> u"
    unfolding u_def by (rule nearestDouble_error)
  show ?thesis
    unfolding positionScore_def a_def [symmetric] b_def [symmetric]
    using gap fa fb ra rb by linarith
qed

lemma sentenceScores_nth:
  "i < length sentences \<Longrightarrow>
     sentenceScores sentences ! i = (sentences ! i, score i (length sentences) (sentences ! i))"
  by (simp add: sentenceScores_def nth_enumerate_eq)

text \<open>
  C7, as the code has it. For the sentence at index \<open>i\<close> of \<open>n\<close>, the position score is
  \<open>1 - i / n\<close>, the length score is \<open>min 1 (length / 100)\<close> and the score is 0.7 times
  the position score plus 0.3 times the length score, each operation being the operation
  on doubles (its exact result rounded to the nearest double) and 0.7 and 0.3 the doubles
  nearest to them. The position score is within \<open>1 / 2 ^ 52\<close>, the length score within
  \<open>1 / 2 ^ 53\<close> and the score within \<open>1 / 2 ^ 50\<close> of the exact value of its formula.
  The position score strictly decreases with the index (for fewer than \<open>2 ^ 51\<close>
  sentences), the length score is 1 from 100 characters on, and this score is what each
  sentence is paired with.
\<close>

theorem importance_scores:
  "positionScore i n = nearestDouble (1 - nearestDouble (of_nat i / of_nat n))
   \<and> lengthScore s = min 1 (nearestDouble (of_nat (length s) / 100))
   \<and> score i n s =
        nearestDouble (nearestDouble (positionScore i n * nearestDouble 0.7)
                       + nearestDouble (lengthScore s * nearestDouble 0.3))
   \<and> (i \<le> n \<and> 0 < n \<longrightarrow>
        \<bar>positionScore i n - (1 - of_nat i / of_nat n)\<bar> \<le> 1 / 2 ^ 52
        \<and> \<bar>score i n s - (0.7 * (1 - of_nat i / of_nat n) + 0.3 * min 1 (of_nat (length s) / 100))\<bar>
            \<le> 1 / 2 ^ 50)
   \<and> \<bar>lengthScore s - min 1 (of_nat (length s) / 100)\<bar> \<le> 1 / 2 ^ 53
   \<and> (i < j \<and> j < n \<and> n < 2 ^ 51 \<longrightarrow> positionScore j n < positionScore i n)
   \<and> (100 \<le> length s \<longrightarrow> lengthScore s = 1)
   \<and> (i < length sentences \<longrightarrow>
        sentenceScores sentences ! i =
          (sentences ! i, score i (length sentences) (sentences ! i)))"
proof -
  have "i \<le> n \<and> 0 < n \<longrightarrow> \<bar>positionScore i n - (1 - of_nat i / of_nat n)\<bar> \<le> 1 / 2 ^ 52"
    using positionScore_error [of i n] by simp
  moreover have "i \<le> n \<and> 0 < n \<longrightarrow>
      \<bar>score i n s - (0.7 * (1 - of_nat i / of_nat n) + 0.3 * min 1 (of_nat (length s) / 100))\<bar>
        \<le> 1 / 2 ^ 50"
    using score_error [of i n s] by blast
  moreover have "i < j \<and> j < n \<and> n < 2 ^ 51 \<longrightarrow> positionScore j n < positionScore i n"
    using positionScore_strict [of i j n] by blast
  moreover have "100 \<le> length s \<longrightarrow> lengthScore s = 1"
    using lengthScore_cap [of s] by blast
  moreover have "i < length sentences \<longrightarrow>
      sentenceScores sentences ! i = (sentences ! i, score i (length sentences) (sentences ! i))"
    using sentenceScores_nth [of i sentences] by blast
  moreover have "positionScore i n = nearestDouble (1 - nearestDouble (of_nat i / of_nat n))"
    by (simp add: positionScore_def)
  moreover have "lengthScore s = min 1 (nearestDouble (of_nat (length s) / 100))"
    by (simp add: lengthScore_def)
  moreover have "score i n s =
        nearestDouble (nearestDouble (positionScore i n * nearestDouble 0.7)
                       + nearestDouble (lengthScore s * nearestDouble 0.3))"
    by (simp add: score_def)
  ultimately show ?thesis using lengthScore_error [of s] by blast
qed

theorem importance_scores_witness:
  "positionScore 1 2 < positionScore 0 2
   \<and> \<bar>positionScore 1 2 - 1 / 2\<bar> \<le> 1 / 2 ^ 52
   \<and> \<bar>score 1 2 '' Yes.'' - 73 / 200\<bar> \<le> 1 / 2 ^ 50
   \<and> lengthScore (replicate 100 (CHR ''a'')) = 1
   \<and> sentenceScores [''Ok.'', '' Yes.''] ! 1
       = ('' Yes.'', score 1 (length [''Ok.'', '' Yes.'']) '' Yes.'')"
proof -
  have "\<bar>positionScore 1 2 - 1 / 2\<bar> \<le> 1 / 2 ^ 52
      \<and> \<bar>score 1 2 '' Yes.'' - 73 / 200\<bar> \<le> 1 / 2 ^ 50"
    using importance_scores [where i = 1 and n = 2 and s = "'' Yes.''",
        THEN conjunct2, THEN conjunct2, THEN conjunct2, THEN conjunct1]
    by simp
  moreover have "positionScore 1 2 < positionScore 0 2"
    using importance_scores [where i = 0 and j = 1 and n = 2,
        THEN conjunct2, THEN conjunct2, THEN conjunct2, THEN conjunct2, THEN conjunct2,
        THEN conjunct1]
    by simp
  moreover have "lengthScore (replicate 100 (CHR ''a'')) = 1"
    using importance_scores [where s = "replicate 100 (CHR ''a'')",
        THEN conjunct2, THEN conjunct2, THEN conjunct2, THEN conjunct2, THEN conjunct2,
        THEN conjunct2, THEN conjunct1]
    by simp
  moreover have "sentenceScores [''Ok.'', '' Yes.''] ! 1
       = ('' Yes.'', score 1 (length [''Ok.'', '' Yes.'']) '' Yes.'')"
    using importance_scores [where i = 1 and sentences = "[''Ok.'', '' Yes.'']",
        THEN conjunct2, THEN conjunct2, THEN conjunct2, THEN conjunct2, THEN conjunct2,
        THEN conjunct2, THEN conjunct2]
    by simp
  ultimately show ?thesis by blast
qed

text \<open>
  C7 as stated, with exact arithmetic, fails: the score of the five-character sentence at
  index 1 of 4 is the double 0.5399999999999999, which is neither 27 / 50, the exact value
  of the formula, nor 0.7 times its position score plus 0.3 times its length score.
\<close>

theorem score_is_rounded:
  "score 1 4 '' Yes.'' = 4863887597560135 / 9007199254740992
   \<and> (0.7 * (1 - 1 / 4) + 0.3 * min 1 (5 / 100) :: rat) = 27 / 50
   \<and> score 1 4 '' Yes.'' \<noteq> 0.7 * (1 - 1 / 4) + 0.3 * min 1 (5 / 100)
   \<and> score 1 4 '' Yes.'' \<noteq> 0.7 * positionScore 1 4 + 0.3 * lengthScore '' Yes.''"
proof -
  have p: "positionScore 1 4 = 3 / 4" by code_simp
  have l: "lengthScore '' Yes.'' = 3602879701896397 / 72057594037927936" by code_simp
  have c7: "nearestDouble 0.7 = 3152519739159347 / 4503599627370496" by code_simp
  have c3: "nearestDouble 0.3 = 5404319552844595 / 18014398509481984" by code_simp
  have a: "nearestDouble (3 / 4 * (3152519739159347 / 4503599627370496))
      = 1182194902184755 / 2251799813685248" by code_simp
  have b: "nearestDouble (3602879701896397 / 72057594037927936 * (5404319552844595 / 18014398509481984))
      = 1080863910568919 / 72057594037927936" by code_simp
  have c: "nearestDouble (1182194902184755 / 2251799813685248 + 1080863910568919 / 72057594037927936)
      = 4863887597560135 / 9007199254740992" by code_simp
  have s: "score 1 4 '' Yes.'' = 4863887597560135 / 9007199254740992"
    by (simp only: score_def p l c7 c3 a b c)
  show ?thesis unfolding s p l by simp
qed

section \<open>Properties of the greedy selection\<close>

subsection \<open>The ranking\<close>







subsection \<open>The selection loop\<close>







subsection \<open>Restoring the order\<close>





subsection \<open>Word counts of trimmed and joined texts\<close>


lemma join_Some_Cons2:
  "join sep (map Some (y # z # zs)) = y @ sep @ join sep (map Some (z # zs))"
  by (simp add: join_def comp_def)
















subsection \<open>The summary within the target\<close>











section \<open>Properties of the target length\<close>





text \<open>
  C10. With a constraint value of 0 the target length is the 30 percent default of the
  type (0.3 times the word count for \<open>time\<close> and \<open>words\<close>, 0.3 times the character count
  for \<open>chars\<close>, the product of doubles), as if no value were given, and so is the summary.
\<close>

theorem zero_value_is_absent:
  "targetLength (Some Time) (Some 0) w c = roundDouble (of_nat w * nearestDouble 0.3)
   \<and> targetLength (Some Chars) (Some 0) w c = roundDouble (of_nat c * nearestDouble 0.3)
   \<and> targetLength (Some Words) (Some 0) w c = roundDouble (of_nat w * nearestDouble 0.3)
   \<and> targetLength ct (Some 0) w c = targetLength ct None w c
   \<and> summarize ct (Some 0) t = summarize ct None t"
  by (simp add: targetLength_def ifTruthy_def summarize_def)

theorem zero_value_is_absent_witness:
  "targetLength (Some Time) (Some 0) 40 200 = Finite 12
   \<and> targetLength (Some Chars) (Some 0) 40 200 = Finite 60
   \<and> targetLength (Some Words) (Some 0) 40 200 = Finite 12"
proof -
  note zero = zero_value_is_absent [of 40 200 None "[]"]
  have w: "roundDouble (of_nat 40 * nearestDouble 0.3) = Finite 12" by code_simp
  have c: "roundDouble (of_nat 200 * nearestDouble 0.3) = Finite 60" by code_simp
  have "targetLength (Some Time) (Some 0) 40 200 = roundDouble (of_nat 40 * nearestDouble 0.3)"
    "targetLength (Some Chars) (Some 0) 40 200 = roundDouble (of_nat 200 * nearestDouble 0.3)"
    "targetLength (Some Words) (Some 0) 40 200 = roundDouble (of_nat 40 * nearestDouble 0.3)"
    using zero by blast+
  then show ?thesis by (simp only: w c)
qed

section \<open>Properties of the summarizer on degenerate and repeated input\<close>

lemma summarize_no_sentences:
  assumes "sentenceMatches t = []"
  shows "summarize ct cv t = []"
  using assms
  by (simp add: summarize_def sentenceScores_def sortByScore_def selectSentences_def
      restoreOrder_def join_def trim_def Let_def)

text \<open>
  C1, as the code has it. When the resolved text has no sentence (the empty text among
  them), the operation does not fail on that account: it returns the empty summary, unless
  the session logger fails, whose error is then passed on.
\<close>

theorem summary_without_sentences_is_empty:
  "resolveTextContent readFile (input_text params)
       (case is_file_path params of None \<Rightarrow> False | Some b \<Rightarrow> b) = Inr t
   \<Longrightarrow> sentenceMatches t = []
   \<Longrightarrow> summaryText readFile logFailure params =
         (case logFailure of None \<Rightarrow> Inr [] | Some msg \<Rightarrow> Inl (''Summary process failed: '' @ msg))"
  by (simp add: summaryText_def summarize_no_sentences split: option.splits)

theorem summary_without_sentences_is_empty_witness:
  "summaryText (\<lambda>p. Inl ''ENOENT'') None
     \<lparr>input_text = ''no terminator here'', is_file_path = None,
      constraint_type = Some Words, constraint_value = Some 20\<rparr> = Inr []"
proof -
  have "sentenceMatches ''no terminator here'' = []"
    by code_simp
  then show ?thesis
    using summary_without_sentences_is_empty
      [of "\<lambda>p. Inl ''ENOENT''"
          "\<lparr>input_text = ''no terminator here'', is_file_path = None,
            constraint_type = Some Words, constraint_value = Some 20\<rparr>"
          "''no terminator here''" None]
    by (simp add: resolveTextContent_def)
qed

text \<open>
  The claim C1 as stated fails: the empty text has no sentence and its summary is a
  success, the empty text.
\<close>

theorem summary_of_empty_text_succeeds:
  "sentenceMatches '''' = []
   \<and> summaryText (\<lambda>p. Inl ''ENOENT'') None
        \<lparr>input_text = '''', is_file_path = None,
         constraint_type = None, constraint_value = None\<rparr> = Inr ''''"
proof -
  have none: "sentenceMatches '''' = []" by code_simp
  then have "summarize None None '''' = []" by (rule summarize_no_sentences)
  then show ?thesis using none by (simp add: summaryText_def resolveTextContent_def)
qed

text \<open>
  C3 at a text with a repeated sentence. All four sentences are selected; the second and
  the fourth have the same text, so both are looked up at index 1, and the summary has the
  repeated sentence twice before the third sentence, where the order of the text has it
  once before and once after.
\<close>

theorem summary_order_with_repeated_sentence:
  "sentenceMatches ''Ok. Yes. No. Yes.'' = [''Ok.'', '' Yes.'', '' No.'', '' Yes.'']
   \<and> summaryText (\<lambda>p. Inl ''ENOENT'') None
        \<lparr>input_text = ''Ok. Yes. No. Yes.'', is_file_path = None,
         constraint_type = Some Words, constraint_value = Some 100\<rparr>
       = Inr ''Ok.  Yes.  Yes.  No.''
   \<and> trim (join '' '' (map Some (sentenceMatches ''Ok. Yes. No. Yes.''))) = ''Ok.  Yes.  No.  Yes.''"
proof -
  let ?sents = "[''Ok.'', '' Yes.'', '' No.'', '' Yes.'']"
  let ?items = "[(''Ok.'', score 0 4 ''Ok.''), ('' Yes.'', score 1 4 '' Yes.''),
      ('' No.'', score 2 4 '' No.''), ('' Yes.'', score 3 4 '' Yes.'')]"
  have sm: "sentenceMatches ''Ok. Yes. No. Yes.'' = ?sents" by code_simp
  have items: "sentenceScores ?sents = ?items"
    by (simp add: sentenceScores_def numeral_eq_Suc)
  have s0: "\<bar>score 0 4 ''Ok.'' - 709 / 1000\<bar> \<le> 1 / 1125899906842624"
    using score_error [of 0 4 "''Ok.''"] by simp
  have s1: "\<bar>score 1 4 '' Yes.'' - 27 / 50\<bar> \<le> 1 / 1125899906842624"
    using score_error [of 1 4 "'' Yes.''"] by simp
  have s2: "\<bar>score 2 4 '' No.'' - 181 / 500\<bar> \<le> 1 / 1125899906842624"
    using score_error [of 2 4 "'' No.''"] by simp
  have s3: "\<bar>score 3 4 '' Yes.'' - 19 / 100\<bar> \<le> 1 / 1125899906842624"
    using score_error [of 3 4 "'' Yes.''"] by simp
  have order: "score 1 4 '' Yes.'' \<le> score 0 4 ''Ok.''" "score 2 4 '' No.'' \<le> score 1 4 '' Yes.''"
    "score 3 4 '' Yes.'' \<le> score 2 4 '' No.''"
    using s0 s1 s2 s3 by linarith+
  then have "sorted (map (\<lambda>item. - snd item) ?items)" by simp
  then have ranked: "sortByScore ?items = ?items"
    unfolding sortByScore_def by (rule sort_key_id_if_sorted)
  have lens: "sentenceLength Words ''Ok.'' = 1" "sentenceLength Words '' Yes.'' = 2"
    "sentenceLength Words '' No.'' = 2"
    by code_simp+
  have sel: "fst (selectSentences (Finite 100) Words ?items) = ?sents"
    by (simp add: selectSentences_def Let_def lens)
  have out: "trim (join '' '' (restoreOrder ?sents ?sents)) = ''Ok.  Yes.  Yes.  No.''"
    by code_simp
  have doc: "trim (join '' '' (map Some ?sents)) = ''Ok.  Yes.  No.  Yes.''"
    by code_simp
  have target: "\<And>w c. targetLength (Some Words) (Some 100) w c = Finite 100"
    by (simp add: targetLength_def ifTruthy_def)
  have metric: "targetMetric (Some Words) = Words" by (simp add: targetMetric_def)
  have "summarize (Some Words) (Some 100) ''Ok. Yes. No. Yes.'' = ''Ok.  Yes.  Yes.  No.''"
    unfolding summarize_def Let_def sm items ranked target metric
    by (simp only: sel out)
  then show ?thesis
    using sm doc by (simp add: summaryText_def resolveTextContent_def)
qed

end
